theory Spec2Isabelle
  imports Main "HOL-Library.Word" "HOL-Library.Monad_Syntax"
begin

unbundle bit_operations_syntax

section \<open>The eFuse driver \<open>cv181x_efuse.c\<close>\<close>

subsection \<open>Machine types, register offsets and constants\<close>

type_synonym u8 = "8 word"
type_synonym u32 = "32 word"
type_synonym s32 = "32 word"
type_synonym s64 = "64 word"

text \<open>
  Registers are named by their byte offset from \<open>efuse_base\<close>, the pointer that
  \<open>ioremap\<close> returns.
\<close>

definition EFUSE_SHADOW_REG :: u32 where "EFUSE_SHADOW_REG = 0x100"
definition EFUSE_SIZE :: nat where "EFUSE_SIZE = 0x100"

definition EFUSE_MODE :: u32 where "EFUSE_MODE = 0x0"
definition EFUSE_ADR :: u32 where "EFUSE_ADR = 0x4"
definition EFUSE_DIR_CMD :: u32 where "EFUSE_DIR_CMD = 0x8"
definition EFUSE_RD_DATA :: u32 where "EFUSE_RD_DATA = 0xC"
definition EFUSE_STATUS :: u32 where "EFUSE_STATUS = 0x10"
definition EFUSE_ONE_WAY :: u32 where "EFUSE_ONE_WAY = 0x14"

definition EFUSE_BIT_AREAD :: u32 where "EFUSE_BIT_AREAD = 1"
definition EFUSE_BIT_MREAD :: u32 where "EFUSE_BIT_MREAD = 2"
definition EFUSE_BIT_PRG :: u32 where "EFUSE_BIT_PRG = 4"
definition EFUSE_BIT_PWR_DN :: u32 where "EFUSE_BIT_PWR_DN = 8"
definition EFUSE_BIT_CMD :: u32 where "EFUSE_BIT_CMD = 16"
definition EFUSE_BIT_BUSY :: u32 where "EFUSE_BIT_BUSY = 1"
definition EFUSE_CMD_REFRESH :: u32 where "EFUSE_CMD_REFRESH = 0x30"

text \<open>The errno values of \<open>errno-base.h\<close> that the driver returns negated.\<close>

definition EIO :: int where "EIO = 5"
definition EFAULT :: int where "EFAULT = 14"

datatype EFUSE_READ_TYPE = EFUSE_AREAD | EFUSE_MREAD | EFUSE_OTHER
  \<comment> \<open>\<open>EFUSE_OTHER\<close> stands for any integer outside the C enumeration\<close>

subsection \<open>The bus: a log of accesses, and a device that answers reads\<close>

text \<open>
  Every access of the driver to the outside is an event, appended to a log in the order
  of execution. The device is not part of the driver: it is a parameter that answers a
  register read, and a request to enable the clock, as a function of everything the driver
  has done so far. The log is the whole state that the driver threads through its calls.
\<close>

datatype event =
    Rd u32 u32    \<comment> \<open>\<open>ioread32\<close>: offset, value returned\<close>
  | Wr u32 u32    \<comment> \<open>\<open>iowrite32\<close>: offset, value written\<close>
  | ClkEnable s32 \<comment> \<open>\<open>clk_prepare_enable\<close>: value returned\<close>
  | ClkDisable    \<comment> \<open>\<open>clk_disable_unprepare\<close>\<close>

type_synonym trace = "event list"

record device =
  dev_read :: "trace \<Rightarrow> u32 \<Rightarrow> u32"
  dev_clk :: "trace \<Rightarrow> s32"

definition mmio_write_32 :: "u32 \<Rightarrow> u32 \<Rightarrow> trace \<Rightarrow> trace" where
  "mmio_write_32 addr val t = t @ [Wr addr val]"

definition mmio_read_32 :: "device \<Rightarrow> u32 \<Rightarrow> trace \<Rightarrow> u32 \<times> trace" where
  "mmio_read_32 D addr t = (let v = dev_read D t addr in (v, t @ [Rd addr v]))"

definition mmio_setbits_32 :: "device \<Rightarrow> u32 \<Rightarrow> u32 \<Rightarrow> trace \<Rightarrow> trace" where
  "mmio_setbits_32 D addr bits t =
     (case mmio_read_32 D addr t of (v, t1) \<Rightarrow> mmio_write_32 addr (v OR bits) t1)"

definition clk_prepare_enable :: "device \<Rightarrow> trace \<Rightarrow> s32 \<times> trace" where
  "clk_prepare_enable D t = (let r = dev_clk D t in (r, t @ [ClkEnable r]))"

definition clk_disable_unprepare :: "trace \<Rightarrow> trace" where
  "clk_disable_unprepare t = t @ [ClkDisable]"

subsection \<open>Register protocol\<close>

text \<open>
  The busy-wait has no bound in the source: on a device that stays busy it never returns,
  which is the value \<open>None\<close> here.
\<close>

partial_function (option) cvi_efuse_wait_for_ready :: "device \<Rightarrow> trace \<Rightarrow> trace option" where
  "cvi_efuse_wait_for_ready D t =
     (let v = dev_read D t EFUSE_STATUS; t1 = t @ [Rd EFUSE_STATUS v]
      in if v AND EFUSE_BIT_BUSY \<noteq> 0 then cvi_efuse_wait_for_ready D t1 else Some t1)"

definition cvi_efuse_power_on :: "device \<Rightarrow> u32 \<Rightarrow> trace \<Rightarrow> trace" where
  "cvi_efuse_power_on D on t =
     (if on \<noteq> 0 then mmio_setbits_32 D EFUSE_MODE EFUSE_BIT_CMD t
      else mmio_setbits_32 D EFUSE_MODE (EFUSE_BIT_PWR_DN OR EFUSE_BIT_CMD) t)"

definition cvi_efuse_refresh :: "trace \<Rightarrow> trace" where
  "cvi_efuse_refresh t = mmio_write_32 EFUSE_MODE EFUSE_CMD_REFRESH t"

definition cvi_efuse_prog_bit :: "device \<Rightarrow> u32 \<Rightarrow> u32 \<Rightarrow> u32 \<Rightarrow> trace \<Rightarrow> trace option" where
  "cvi_efuse_prog_bit D word_addr bit_addr high_row t =
     (let phy_addr = push_bit 7 (bit_addr AND 0x1F) OR push_bit 1 (word_addr AND 0x3F) OR high_row
      in do {
        t1 \<leftarrow> cvi_efuse_wait_for_ready D t;
        Some (mmio_write_32 EFUSE_MODE (EFUSE_BIT_PRG OR EFUSE_BIT_CMD)
               (mmio_write_32 EFUSE_ADR phy_addr t1))
      })"

definition cvi_efuse_read_from_phy ::
  "device \<Rightarrow> u32 \<Rightarrow> EFUSE_READ_TYPE \<Rightarrow> trace \<Rightarrow> (u32 \<times> trace) option" where
  "cvi_efuse_read_from_phy D phy_word_addr type t =
     do {
       t1 \<leftarrow> cvi_efuse_wait_for_ready D (cvi_efuse_power_on D 1 t);
       let t2 = mmio_write_32 EFUSE_ADR phy_word_addr t1;
       case type of
         EFUSE_AREAD \<Rightarrow> do {
           t3 \<leftarrow> cvi_efuse_wait_for_ready D
                  (mmio_write_32 EFUSE_MODE (EFUSE_BIT_AREAD OR EFUSE_BIT_CMD) t2);
           Some (mmio_read_32 D EFUSE_RD_DATA t3) }
       | EFUSE_MREAD \<Rightarrow> do {
           t3 \<leftarrow> cvi_efuse_wait_for_ready D
                  (mmio_write_32 EFUSE_MODE (EFUSE_BIT_MREAD OR EFUSE_BIT_CMD) t2);
           Some (mmio_read_32 D EFUSE_RD_DATA t3) }
       | EFUSE_OTHER \<Rightarrow> Some (- 1, t2)
     }"

subsection \<open>Writing one virtual word\<close>

text \<open>The inner loop of \<open>cvi_efuse_write_word\<close>: \<open>for (i = 0; i < 32; i++)\<close>.\<close>

function prog_loop :: "device \<Rightarrow> u32 \<Rightarrow> u32 \<Rightarrow> u32 \<Rightarrow> u32 \<Rightarrow> trace \<Rightarrow> trace option" where
  "prog_loop D vir_word_addr zero_bit j i t =
     (if i < 32 then
        (if drop_bit (unat i) zero_bit AND 1 \<noteq> 0
         then cvi_efuse_prog_bit D vir_word_addr i j t else Some t)
        \<bind> prog_loop D vir_word_addr zero_bit j (i + 1)
      else Some t)"
  by pat_completeness auto
termination
proof (relation "measure (\<lambda>(D, a, z, j, i, t). 32 - unat i)")
  show "wf (measure (\<lambda>(D, a, z, j, i, t). 32 - unat i))" by simp
next
  fix D :: device and vir_word_addr zero_bit j i :: u32 and t x :: trace
  assume "i < 32"
  then have "unat i < 32" by (simp add: word_less_nat_alt)
  moreover from this have "unat (i + 1) = unat i + 1"
    by (simp add: unat_word_ariths)
  ultimately show "((D, vir_word_addr, zero_bit, j, i + 1, x), (D, vir_word_addr, zero_bit, j, i, t))
      \<in> measure (\<lambda>(D, a, z, j, i, t). 32 - unat i)"
    by simp
qed

declare prog_loop.simps [simp del]

text \<open>
  The body of the outer loop \<open>for (j = 0; j < 2; j++)\<close>, for the physical row \<open>j\<close>, in
  two parts: \<open>write_word_row\<close> runs from the array read to the margin read and yields
  \<open>new_value\<close>; \<open>write_word_pass\<close> then compares and counts.
\<close>

definition write_word_row ::
  "device \<Rightarrow> u32 \<Rightarrow> u32 \<Rightarrow> u32 \<Rightarrow> trace \<Rightarrow> (u32 \<times> trace) option" where
  "write_word_row D vir_word_addr val j t =
     do {
       (row_val, t1) \<leftarrow> cvi_efuse_read_from_phy D (push_bit 1 vir_word_addr OR j) EFUSE_AREAD t;
       let zero_bit = val AND NOT row_val;
       t2 \<leftarrow> prog_loop D vir_word_addr zero_bit j 0 t1;
       cvi_efuse_read_from_phy D (push_bit 1 vir_word_addr OR j) EFUSE_MREAD t2
     }"

definition write_word_pass ::
  "device \<Rightarrow> u32 \<Rightarrow> u32 \<Rightarrow> u32 \<Rightarrow> s32 \<Rightarrow> trace \<Rightarrow> (s32 \<times> trace) option" where
  "write_word_pass D vir_word_addr val j err_cnt t =
     do {
       (new_value, t3) \<leftarrow> write_word_row D vir_word_addr val j t;
       Some (if val AND new_value \<noteq> val then err_cnt + 1 else err_cnt, t3)
     }"

function write_word_loop ::
  "device \<Rightarrow> u32 \<Rightarrow> u32 \<Rightarrow> u32 \<Rightarrow> s32 \<Rightarrow> trace \<Rightarrow> (s32 \<times> trace) option" where
  "write_word_loop D vir_word_addr val j err_cnt t =
     (if j < 2 then
        write_word_pass D vir_word_addr val j err_cnt t
        \<bind> (\<lambda>(err_cnt', t'). write_word_loop D vir_word_addr val (j + 1) err_cnt' t')
      else Some (err_cnt, t))"
  by pat_completeness auto
termination
proof (relation "measure (\<lambda>(D, a, v, j, e, t). 2 - unat j)")
  show "wf (measure (\<lambda>(D, a, v, j, e, t). 2 - unat j))" by simp
next
  fix D :: device and vir_word_addr val j :: u32 and err_cnt :: s32 and t :: trace
    and x :: "s32 \<times> trace" and xa :: s32 and y :: trace
  assume "j < 2"
  then have "unat j < 2" by (simp add: word_less_nat_alt)
  moreover from this have "unat (j + 1) = unat j + 1"
    by (simp add: unat_word_ariths)
  ultimately show "((D, vir_word_addr, val, j + 1, xa, y), (D, vir_word_addr, val, j, err_cnt, t))
      \<in> measure (\<lambda>(D, a, v, j, e, t). 2 - unat j)"
    by simp
qed

declare write_word_loop.simps [simp del]

definition cvi_efuse_write_word :: "device \<Rightarrow> u32 \<Rightarrow> u32 \<Rightarrow> trace \<Rightarrow> (s32 \<times> trace) option" where
  "cvi_efuse_write_word D vir_word_addr val t =
     do {
       (err_cnt, t1) \<leftarrow> write_word_loop D vir_word_addr val 0 0 t;
       Some (if 2 \<le>s err_cnt then - word_of_int EIO else 0, cvi_efuse_refresh t1)
     }"

subsection \<open>Reading the shadow window\<close>

text \<open>
  \<open>cvi_efuse_read_from_shadow\<close> returns an \<open>int64_t\<close>: a negative errno, the nonzero result
  of \<open>clk_prepare_enable\<close> (an \<open>int\<close>, sign-extended), or the register value (a
  \<open>uint32_t\<close>, zero-extended).
\<close>

definition cvi_efuse_read_from_shadow :: "device \<Rightarrow> u32 \<Rightarrow> trace \<Rightarrow> s64 \<times> trace" where
  "cvi_efuse_read_from_shadow D addr t =
     (if EFUSE_SIZE \<le> unat addr then (- word_of_int EFAULT, t)
      else if addr mod 4 \<noteq> 0 then (- word_of_int EFAULT, t)
      else case clk_prepare_enable D t of (r, t1) \<Rightarrow>
        let ret = (scast r :: s64) in
        if ret \<noteq> 0 then (ret, t1)
        else case mmio_read_32 D (EFUSE_SHADOW_REG + addr) t1 of (v, t2) \<Rightarrow>
          (ucast v, clk_disable_unprepare t2))"

text \<open>
  \<open>cvi_efuse_write\<close>: the body that would call \<open>cvi_efuse_write_word\<close> is under \<open>#if 0\<close>;
  what is compiled is the \<open>#else\<close> branch, \<open>return -1\<close>.
\<close>

definition cvi_efuse_write :: "device \<Rightarrow> u32 \<Rightarrow> u32 \<Rightarrow> trace \<Rightarrow> s32 \<times> trace" where
  "cvi_efuse_write D addr val t = (- 1, t)"

subsection \<open>Reading into a buffer\<close>

text \<open>
  The destination is the memory from the pointer \<open>buf\<close> onwards, byte by byte; the function
  is not told where the caller's allocation ends. A null pointer is \<open>None\<close>. \<open>memcpy\<close> of
  a \<open>u32\<close> stores its four bytes least significant first (the SoC is little-endian).
\<close>

type_synonym buffer = "nat \<Rightarrow> u8"

definition memset0 :: "buffer \<Rightarrow> nat \<Rightarrow> buffer" where
  "memset0 buf n = (\<lambda>k. if k < n then 0 else buf k)"

definition le_byte :: "u32 \<Rightarrow> nat \<Rightarrow> u8" where
  "le_byte v k = ucast (drop_bit (8 * k) v)"

definition memcpy_u32 :: "buffer \<Rightarrow> nat \<Rightarrow> u32 \<Rightarrow> buffer" where
  "memcpy_u32 buf i v = (\<lambda>k. if i \<le> k \<and> k < i + 4 then le_byte v (k - i) else buf k)"

text \<open>
  The loop \<open>for (i = 0; i < buf_size; i += 4)\<close>. The counter and the size stay within
  \<open>0 .. 259\<close>, so they are natural numbers; \<open>addr + i\<close> is 32-bit and wraps.
\<close>

function read_buf_loop ::
  "device \<Rightarrow> u32 \<Rightarrow> nat \<Rightarrow> nat \<Rightarrow> buffer \<Rightarrow> trace \<Rightarrow> s32 \<times> buffer \<times> trace" where
  "read_buf_loop D addr buf_size i buf t =
     (if i < buf_size then
        case cvi_efuse_read_from_shadow D (addr + of_nat i) t of (ret, t') \<Rightarrow>
          if ret <s 0 then (ucast ret, buf, t')
          else read_buf_loop D addr buf_size (i + 4)
                 (if 0 <s ret then memcpy_u32 buf i (ucast ret) else buf) t'
      else (of_nat buf_size, buf, t))"
  by pat_completeness auto
termination
  by (relation "measure (\<lambda>(D, addr, buf_size, i, buf, t). buf_size - i)") auto

declare read_buf_loop.simps [simp del]

definition cvi_efuse_read_buf ::
  "device \<Rightarrow> u32 \<Rightarrow> buffer option \<Rightarrow> nat \<Rightarrow> trace \<Rightarrow> s32 \<times> buffer option \<times> trace" where
  "cvi_efuse_read_buf D addr buf buf_size t =
     (case buf of
        None \<Rightarrow> (- word_of_int EFAULT, None, t)
      | Some b \<Rightarrow>
          let buf_size = (if buf_size > EFUSE_SIZE then EFUSE_SIZE else buf_size)
          in case read_buf_loop D addr buf_size 0 (memset0 b buf_size) t of
               (r, b', t') \<Rightarrow> (r, Some b', t'))"

section \<open>Specification vocabulary\<close>

text \<open>
  Polling with a bound: \<open>busy_poll D n t\<close> reads the status register at most \<open>n\<close> times.
  A device is responsive when, whatever has happened so far, some number of polls finds it
  ready.
\<close>

fun busy_poll :: "device \<Rightarrow> nat \<Rightarrow> trace \<Rightarrow> trace option" where
  "busy_poll D 0 t = None"
| "busy_poll D (Suc n) t =
     (let v = dev_read D t EFUSE_STATUS; t1 = t @ [Rd EFUSE_STATUS v]
      in if v AND EFUSE_BIT_BUSY \<noteq> 0 then busy_poll D n t1 else Some t1)"

definition responsive :: "device \<Rightarrow> bool" where
  "responsive D \<longleftrightarrow> (\<forall>t. \<exists>n. busy_poll D n t \<noteq> None)"

text \<open>
  What one busy-wait leaves in the log: reads of the status register and nothing else, each
  but the last with the busy bit set, the last with it clear.
\<close>

fun is_poll :: "trace \<Rightarrow> bool" where
  "is_poll [] = False"
| "is_poll (Rd off v # es) =
     (off = EFUSE_STATUS \<and> (if v AND EFUSE_BIT_BUSY \<noteq> 0 then is_poll es else es = []))"
| "is_poll (e # es) = False"

text \<open>The clock framework's contract: \<open>clk_prepare_enable\<close> returns 0 or a negative errno.\<close>

definition clk_contract :: "device \<Rightarrow> bool" where
  "clk_contract D \<longleftrightarrow> (\<forall>t. \<not> 0 <s dev_clk D t)"

definition clk_always_on :: "device \<Rightarrow> bool" where
  "clk_always_on D \<longleftrightarrow> (\<forall>t. dev_clk D t = 0)"

text \<open>Calling \<open>cvi_efuse_prog_bit\<close> for a list of bit positions, in order.\<close>

fun prog_bits :: "device \<Rightarrow> u32 \<Rightarrow> u32 \<Rightarrow> nat list \<Rightarrow> trace \<Rightarrow> trace option" where
  "prog_bits D word_addr high_row [] t = Some t"
| "prog_bits D word_addr high_row (i # is) t =
     cvi_efuse_prog_bit D word_addr (of_nat i) high_row t \<bind> prog_bits D word_addr high_row is"

text \<open>
  The events of successful shadow reads at \<open>addr + i\<close>, \<open>addr + i + 4\<close>, ... that return the
  values \<open>vs\<close>, and the buffer after storing \<open>vs\<close> from byte \<open>i\<close> on, zero words skipped.
\<close>

fun stride_events :: "u32 \<Rightarrow> nat \<Rightarrow> u32 list \<Rightarrow> trace" where
  "stride_events addr i [] = []"
| "stride_events addr i (v # vs) =
     [ClkEnable 0, Rd (EFUSE_SHADOW_REG + (addr + of_nat i)) v, ClkDisable]
     @ stride_events addr (i + 4) vs"

fun store_words :: "buffer \<Rightarrow> nat \<Rightarrow> u32 list \<Rightarrow> buffer" where
  "store_words b i [] = b"
| "store_words b i (v # vs) = store_words (if v \<noteq> 0 then memcpy_u32 b i v else b) (i + 4) vs"

text \<open>The reads at \<open>addr + i\<close>, \<open>addr + i + 4\<close>, ... (\<open>m\<close> of them) are all at valid addresses.\<close>

definition valid_strides :: "u32 \<Rightarrow> nat \<Rightarrow> nat \<Rightarrow> bool" where
  "valid_strides addr i m \<longleftrightarrow>
     (\<forall>k<m. unat (addr + of_nat (i + 4 * k)) < EFUSE_SIZE \<and> (addr + of_nat (i + 4 * k)) mod 4 = 0)"

text \<open>
  A device for examples. It is never busy, its clock always turns on, every even physical
  row reads as all zeroes and every odd row as all ones, whatever is programmed, and a
  shadow register reads as its own offset.
\<close>

definition last_adr :: "trace \<Rightarrow> u32" where
  "last_adr t = foldl (\<lambda>a e. case e of Wr off v \<Rightarrow> if off = EFUSE_ADR then v else a | _ \<Rightarrow> a) 0 t"

definition demo_dev :: device where
  "demo_dev = \<lparr>
     dev_read = (\<lambda>t off.
       if off = EFUSE_RD_DATA then (if bit (last_adr t) 0 then 0xFFFFFFFF else 0)
       else if EFUSE_SHADOW_REG \<le> off then off
       else 0),
     dev_clk = (\<lambda>t. 0) \<rparr>"

section \<open>Termination of the register protocol\<close>

text \<open>
  On a responsive device the busy-wait returns, and so does everything built on it.
\<close>

lemma busy_poll_wait:
  "busy_poll D n t = Some t' \<Longrightarrow> cvi_efuse_wait_for_ready D t = Some t'"
proof (induction n arbitrary: t)
  case 0
  then show ?case by simp
next
  case (Suc n)
  then show ?case
    by (subst cvi_efuse_wait_for_ready.simps) (auto simp: Let_def split: if_splits)
qed

lemma wait_returns:
  assumes "responsive D"
  obtains t' where "cvi_efuse_wait_for_ready D t = Some t'"
  using assms busy_poll_wait unfolding responsive_def by (metis not_Some_eq)

lemma prog_bit_returns:
  assumes "responsive D"
  obtains t' where "cvi_efuse_prog_bit D w b r t = Some t'"
proof -
  obtain t1 where "cvi_efuse_wait_for_ready D t = Some t1"
    using wait_returns [OF assms] by blast
  then have "\<exists>t'. cvi_efuse_prog_bit D w b r t = Some t'"
    by (simp add: cvi_efuse_prog_bit_def)
  then show thesis using that by blast
qed

lemma read_from_phy_returns:
  assumes "responsive D"
  obtains v t' where "cvi_efuse_read_from_phy D p ty t = Some (v, t')"
proof -
  obtain t1 where 1: "cvi_efuse_wait_for_ready D (cvi_efuse_power_on D 1 t) = Some t1"
    using wait_returns [OF assms] by blast
  obtain t3 where 2: "cvi_efuse_wait_for_ready D
      (mmio_write_32 EFUSE_MODE (EFUSE_BIT_AREAD OR EFUSE_BIT_CMD) (mmio_write_32 EFUSE_ADR p t1)) = Some t3"
    using wait_returns [OF assms] by blast
  obtain t4 where 3: "cvi_efuse_wait_for_ready D
      (mmio_write_32 EFUSE_MODE (EFUSE_BIT_MREAD OR EFUSE_BIT_CMD) (mmio_write_32 EFUSE_ADR p t1)) = Some t4"
    using wait_returns [OF assms] by blast
  have "\<exists>v t'. cvi_efuse_read_from_phy D p ty t = Some (v, t')"
    using 1 2 3 by (cases ty) (simp_all add: cvi_efuse_read_from_phy_def mmio_read_32_def Let_def)
  then show thesis using that by blast
qed

lemma prog_bits_returns:
  assumes "responsive D"
  shows "\<exists>t'. prog_bits D w r is t = Some t'"
proof (induction "is" arbitrary: t)
  case Nil
  then show ?case by simp
next
  case (Cons i "is")
  obtain t1 where "cvi_efuse_prog_bit D w (of_nat i) r t = Some t1"
    using prog_bit_returns [OF assms] by blast
  with Cons show ?case by simp
qed

section \<open>The programming loop\<close>

lemma bit_test: "drop_bit n (z :: u32) AND 1 \<noteq> 0 \<longleftrightarrow> bit z n"
  by (simp add: bit_iff_and_drop_bit_eq_1 and_one_eq mod2_eq_if) 

lemma prog_loop_from:
  "i \<le> 32 \<Longrightarrow> prog_loop D a z j (of_nat i) t = prog_bits D a j (filter (bit z) [i..<32]) t"
proof (induction "32 - i" arbitrary: i t)
  case 0
  then have "i = 32" by simp
  then show ?case by (simp add: prog_loop.simps)
next
  case (Suc k)
  then have lt: "i < 32" by simp
  then have w: "(of_nat i :: u32) < 32" "unat (of_nat i :: u32) = i"
    by (simp_all add: word_less_nat_alt unat_of_nat take_bit_nat_eq_self)
  have nxt: "(of_nat i :: u32) + 1 = of_nat (Suc i)" by simp
  have IH: "prog_loop D a z j (of_nat (Suc i)) = prog_bits D a j (filter (bit z) [Suc i..<32])"
    using Suc lt by (intro ext Suc.hyps(1)) simp_all
  have up: "[i..<32] = i # [Suc i..<32]" using lt by (simp add: upt_conv_Cons)
  show ?case
    apply (subst prog_loop.simps) 
    apply (simp only: w if_True bit_test nxt IH up filter.simps)
    apply simp
    done
qed

lemma prog_loop_eq:
  "prog_loop D a z j 0 t = prog_bits D a j (filter (bit z) [0..<32]) t"
  using prog_loop_from [of 0 D a z j t] by simp

section \<open>The two passes of the word write\<close>

lemma write_word_loop_unfold:
  "write_word_loop D a v 0 c t =
     write_word_pass D a v 0 c t \<bind> (\<lambda>(c', t'). write_word_pass D a v 1 c' t')"
proof -
  have "write_word_loop D a v 2 c' t' = Some (c', t')" for c' t'
    by (subst write_word_loop.simps) simp
  moreover have "write_word_loop D a v 1 c' t' =
      write_word_pass D a v 1 c' t' \<bind> (\<lambda>(c'', t''). write_word_loop D a v 2 c'' t'')" for c' t'
    by (subst write_word_loop.simps) simp
  ultimately have "write_word_loop D a v 1 c' t' = write_word_pass D a v 1 c' t'" for c' t'
    by (cases "write_word_pass D a v 1 c' t'") auto
  then have "write_word_loop D a v 1 = write_word_pass D a v 1"
    by (intro ext)
  then show ?thesis
    by (subst write_word_loop.simps) simp
qed

lemma write_word_row_returns:
  assumes "responsive D"
  obtains nv t' where "write_word_row D a v j t = Some (nv, t')"
proof -
  obtain rv t1 where 1: "cvi_efuse_read_from_phy D (push_bit 1 a OR j) EFUSE_AREAD t = Some (rv, t1)"
    using read_from_phy_returns [OF assms] by blast
  obtain t2 where 2: "prog_loop D a (v AND NOT rv) j 0 t1 = Some t2"
    using prog_bits_returns [OF assms] unfolding prog_loop_eq by blast
  obtain nv t3 where 3: "cvi_efuse_read_from_phy D (push_bit 1 a OR j) EFUSE_MREAD t2 = Some (nv, t3)"
    using read_from_phy_returns [OF assms] by blast
  have "write_word_row D a v j t = Some (nv, t3)"
    using 1 2 3 by (simp add: write_word_row_def)
  then show thesis using that by blast
qed

section \<open>Evaluating the example device\<close>

lemmas reg_defs = EFUSE_SHADOW_REG_def EFUSE_MODE_def EFUSE_ADR_def EFUSE_DIR_CMD_def
  EFUSE_RD_DATA_def EFUSE_STATUS_def EFUSE_ONE_WAY_def EFUSE_BIT_AREAD_def EFUSE_BIT_MREAD_def
  EFUSE_BIT_PRG_def EFUSE_BIT_PWR_DN_def EFUSE_BIT_CMD_def EFUSE_BIT_BUSY_def
  EFUSE_CMD_REFRESH_def

lemmas mmio_defs = mmio_write_32_def mmio_read_32_def mmio_setbits_32_def
  clk_prepare_enable_def clk_disable_unprepare_def

lemma demo_wait: "cvi_efuse_wait_for_ready demo_dev t = Some (t @ [Rd EFUSE_STATUS 0])"
  by (subst cvi_efuse_wait_for_ready.simps) (simp add: demo_dev_def reg_defs)

lemma demo_responsive: "responsive demo_dev"
  unfolding responsive_def
proof
  fix t
  have "busy_poll demo_dev (Suc 0) t \<noteq> None"
    by (simp add: demo_dev_def reg_defs)
  then show "\<exists>n. busy_poll demo_dev n t \<noteq> None" ..
qed


lemma demo_read:
  "dev_read demo_dev t off =
     (if off = EFUSE_RD_DATA then (if bit (last_adr t) 0 then 0xFFFFFFFF else 0)
      else if EFUSE_SHADOW_REG \<le> off then off else 0)"
  "dev_clk demo_dev t = 0"
  by (simp_all add: demo_dev_def)

lemmas demo_eval = write_word_row_def cvi_efuse_read_from_phy_def demo_wait prog_loop_eq
      cvi_efuse_power_on_def mmio_defs Let_def demo_read reg_defs last_adr_def


lemma upt_32: "[0..<32] = [0,1,2,3,4,5,6,7,8,9,10,11,12,13,14,15,16,17,18,19,20,21,22,23,24,25,26,27,28,29,30,31]"
  by code_simp

lemma filter_bit_1: "filter (bit (1::u32)) [0..<32] = [0]"
  by (simp add: upt_32 bit_1_iff)

lemma demo_row0: "write_word_row demo_dev 0 1 0 [] = Some (0, 
   [Rd 0 0, Wr 0 16, Rd 16 0, Wr 4 0, Wr 0 17, Rd 16 0, Rd 12 0,
    Rd 16 0, Wr 4 0, Wr 0 20,
    Rd 0 0, Wr 0 16, Rd 16 0, Wr 4 0, Wr 0 18, Rd 16 0, Rd 12 0])"
  by (simp add: demo_eval filter_bit_1 cvi_efuse_prog_bit_def)

lemma demo_row1: "\<exists>t1. write_word_row demo_dev 0 1 1 t0 = Some (0xFFFFFFFF, t1)"
  by (simp add: demo_eval)

lemma demo_row1_from_start:
  "write_word_row demo_dev 0 1 1 [] = Some (0xFFFFFFFF,
     [Rd 0 0, Wr 0 16, Rd 16 0, Wr 4 1, Wr 0 17, Rd 16 0, Rd 12 0xFFFFFFFF,
      Rd 0 0, Wr 0 16, Rd 16 0, Wr 4 1, Wr 0 18, Rd 16 0, Rd 12 0xFFFFFFFF])"
  by (simp add: demo_eval)

section \<open>Claims about the word write\<close>

lemma sle_cases: "(2::s32) \<le>s 0 \<longleftrightarrow> False" "(2::s32) \<le>s 1 \<longleftrightarrow> False" "(2::s32) \<le>s 2 \<longleftrightarrow> True"
  "(2::s32) \<le>s 0 + 1 \<longleftrightarrow> False" "(2::s32) \<le>s 0 + 1 + 1 \<longleftrightarrow> True" 
  by (simp_all add: word_sle_eq)

text \<open>
  Claim C1. On a responsive device \<open>cvi_efuse_write_word\<close> returns, for every virtual word
  address and value. With \<open>nv0\<close> and \<open>nv1\<close> the values of the margin reads of rows 0 and 1,
  it returns \<open>-EIO\<close> exactly when both \<open>val & nv0 != val\<close> and \<open>val & nv1 != val\<close>, that
  is when the error counter reaches 2, and 0 otherwise: one failing row is still a success.
\<close>

theorem write_word_returns_error_iff_both_rows_fail:
  assumes "responsive D"
  shows "\<exists>nv0 t0 nv1 t1.
           write_word_row D a v 0 t = Some (nv0, t0) \<and>
           write_word_row D a v 1 t0 = Some (nv1, t1) \<and>
           cvi_efuse_write_word D a v t =
             Some (if v AND nv0 \<noteq> v \<and> v AND nv1 \<noteq> v then - word_of_int EIO else 0,
                   cvi_efuse_refresh t1)"
proof -
  obtain nv0 t0 where 0: "write_word_row D a v 0 t = Some (nv0, t0)"
    using write_word_row_returns [OF assms] by blast
  obtain nv1 t1 where 1: "write_word_row D a v 1 t0 = Some (nv1, t1)"
    using write_word_row_returns [OF assms] by blast
  have "cvi_efuse_write_word D a v t =
      Some (if v AND nv0 \<noteq> v \<and> v AND nv1 \<noteq> v then - word_of_int EIO else 0, cvi_efuse_refresh t1)"
    using 0 1 by (simp add: cvi_efuse_write_word_def write_word_loop_unfold write_word_pass_def sle_cases)
  with 0 1 show ?thesis by blast
qed



text \<open>
  On the example device row 0 never verifies and row 1 always does: writing the value 1 to
  word 0 returns 0.
\<close>

theorem write_word_returns_error_iff_both_rows_fail_witness:
  "responsive demo_dev \<and> (\<exists>t'. cvi_efuse_write_word demo_dev 0 1 [] = Some (0, t'))"
proof -
  obtain nv0 t0 nv1 t1 where
    r0: "write_word_row demo_dev 0 1 0 [] = Some (nv0, t0)" and
    r1: "write_word_row demo_dev 0 1 1 t0 = Some (nv1, t1)" and
    w: "cvi_efuse_write_word demo_dev 0 1 [] =
          Some (if 1 AND nv0 \<noteq> 1 \<and> 1 AND nv1 \<noteq> 1 then - word_of_int EIO else 0,
                cvi_efuse_refresh t1)"
    using write_word_returns_error_iff_both_rows_fail [OF demo_responsive, of 0 1 "[]"] by blast
  from r1 demo_row1 [of t0] have "nv1 = 0xFFFFFFFF" by auto
  with w show ?thesis using demo_responsive by auto
qed

section \<open>The physical address of a fuse bit\<close>

lemma m5: "(0x1F::u32) = mask 5" by (simp add: mask_eq_exp_minus_1)
lemma m6: "(0x3F::u32) = mask 6" by (simp add: mask_eq_exp_minus_1)
lemma bit1: "bit (1::u32) n \<longleftrightarrow> n = 0" by (simp add: bit_1_iff)
lemma bit0: "bit (0::u32) n \<longleftrightarrow> False" by simp
lemma le1: "(r::u32) \<le> 1 \<Longrightarrow> r = 0 \<or> r = 1"
  by (metis word_le_less_eq word_less_1)

lemma phy_addr_bit_field:
  fixes w b r :: u32
  assumes "r \<le> 1" 
  shows "drop_bit 7 (push_bit 7 (b AND 0x1F) OR push_bit 1 (w AND 0x3F) OR r) = b AND 0x1F"
proof -
  from assms have "r = 0 \<or> r = 1" by (rule le1)
  then show ?thesis unfolding m5 m6
    by (auto intro!: bit_word_eqI simp only: bit_simps bit1 bit0 comp_apply simp_thms) auto
qed

lemma phy_addr_word_field:
  fixes w b r :: u32
  assumes "r \<le> 1" 
  shows "drop_bit 1 (push_bit 7 (b AND 0x1F) OR push_bit 1 (w AND 0x3F) OR r) AND 0x3F = w AND 0x3F"
proof -
  from assms have "r = 0 \<or> r = 1" by (rule le1)
  then show ?thesis unfolding m5 m6
    by (auto intro!: bit_word_eqI simp only: bit_simps bit1 bit0 comp_apply simp_thms) auto
qed

lemma phy_addr_row_field:
  fixes w b r :: u32
  assumes "r \<le> 1" 
  shows "(push_bit 7 (b AND 0x1F) OR push_bit 1 (w AND 0x3F) OR r) AND 1 = r"
proof -
  from assms have "r = 0 \<or> r = 1" by (rule le1)
  then show ?thesis unfolding m5 m6
    by (auto intro!: bit_word_eqI simp only: bit_simps bit1 bit0 comp_apply simp_thms)
qed

lemma phy_addr_12_bits:
  fixes w b r :: u32
  assumes "r \<le> 1" 
  shows "drop_bit 12 (push_bit 7 (b AND 0x1F) OR push_bit 1 (w AND 0x3F) OR r) = 0"
proof -
  from assms have "r = 0 \<or> r = 1" by (rule le1)
  then show ?thesis unfolding m5 m6
    by (auto intro!: bit_word_eqI simp only: bit_simps bit1 bit0 comp_apply simp_thms)
qed

text \<open>
  Claim C2. For every word address, bit address and row selector, \<open>cvi_efuse_prog_bit\<close>
  waits until the device is ready and then writes to the ADDR register the value
  \<open>((bit_addr & 0x1F) << 7) | ((word_addr & 0x3F) << 1) | row\<close>, followed by the program
  command. For a row selector 0 or 1 the fields do not overlap: bits 11..7 hold the bit
  position, bits 6..1 the word position, bit 0 the row selector, and nothing lies above
  bit 11.
\<close>

theorem prog_bit_physical_address:
  "(let phy = push_bit 7 (bit_addr AND 0x1F) OR push_bit 1 (word_addr AND 0x3F) OR row in
      cvi_efuse_prog_bit D word_addr bit_addr row t =
        map_option (\<lambda>t1. t1 @ [Wr EFUSE_ADR phy, Wr EFUSE_MODE (EFUSE_BIT_PRG OR EFUSE_BIT_CMD)])
          (cvi_efuse_wait_for_ready D t) \<and>
      (row \<le> 1 \<longrightarrow>
         drop_bit 7 phy = bit_addr AND 0x1F \<and> drop_bit 1 phy AND 0x3F = word_addr AND 0x3F \<and>
         phy AND 1 = row \<and> drop_bit 12 phy = 0))"
proof -
  have "cvi_efuse_prog_bit D word_addr bit_addr row t =
      map_option (\<lambda>t1. t1 @ [Wr EFUSE_ADR (push_bit 7 (bit_addr AND 0x1F) OR push_bit 1 (word_addr AND 0x3F) OR row),
                            Wr EFUSE_MODE (EFUSE_BIT_PRG OR EFUSE_BIT_CMD)])
        (cvi_efuse_wait_for_ready D t)"
    by (cases "cvi_efuse_wait_for_ready D t")
       (simp_all add: cvi_efuse_prog_bit_def mmio_write_32_def)
  then show ?thesis
    unfolding Let_def
    using phy_addr_bit_field phy_addr_word_field phy_addr_row_field phy_addr_12_bits
    by blast
qed

text \<open>Word 5, bit 3, row 1 is the physical address \<open>0x18B\<close>.\<close>

theorem prog_bit_physical_address_witness:
  "(1::u32) \<le> 1 \<and>
   cvi_efuse_prog_bit demo_dev 5 3 1 [] =
     Some [Rd EFUSE_STATUS 0, Wr EFUSE_ADR 0x18B, Wr EFUSE_MODE 0x14] \<and>
   drop_bit 7 (0x18B :: u32) = 3 \<and> drop_bit 1 (0x18B :: u32) AND 0x3F = 5 \<and> (0x18B :: u32) AND 1 = 1"
  using prog_bit_physical_address [of 3 5 1 demo_dev "[]"]
  by (simp add: demo_wait reg_defs)

section \<open>What one pass programs and verifies\<close>

lemma zero_bit_positions:
  "filter (bit (v AND NOT row_val)) [0..<32] = filter (\<lambda>i. bit v i \<and> \<not> bit row_val i) [0..<32]"
  for v row_val :: u32
  by (rule filter_cong) (simp_all add: bit_simps)

lemma write_word_row_prog_bits:
  "write_word_row D a v j t =
     do {
       (row_val, t1) \<leftarrow> cvi_efuse_read_from_phy D (push_bit 1 a OR j) EFUSE_AREAD t;
       t2 \<leftarrow> prog_bits D a j (filter (\<lambda>i. bit v i \<and> \<not> bit row_val i) [0..<32]) t1;
       cvi_efuse_read_from_phy D (push_bit 1 a OR j) EFUSE_MREAD t2
     }"
  by (simp add: write_word_row_def prog_loop_eq zero_bit_positions)

lemma verify_fails_iff: "v AND nv \<noteq> v \<longleftrightarrow> (\<exists>i. bit v i \<and> \<not> bit nv i)" for v nv :: u32
proof
  assume "v AND nv \<noteq> v"
  then obtain n where "bit (v AND nv) n \<noteq> bit v n"
    using bit_eq_iff [of "v AND nv" v] by blast
  then show "\<exists>i. bit v i \<and> \<not> bit nv i"
    by (auto simp: bit_and_iff)
next
  assume "\<exists>i. bit v i \<and> \<not> bit nv i"
  then obtain i where "bit v i" "\<not> bit nv i" by blast
  then have "bit (v AND nv) i \<noteq> bit v i" by (simp add: bit_and_iff)
  then show "v AND nv \<noteq> v" by metis
qed

text \<open>
  What the calls do on the bus, on a responsive device. A read of a physical row powers
  the macro on (a read of MODE, written back with the command bit set), waits, writes the
  row to ADR and the read command to MODE, waits again, and returns what RD-DATA then
  reads.
\<close>

lemma busy_poll_shape:
  "busy_poll D n t = Some t' \<Longrightarrow> \<exists>w. is_poll w \<and> t' = t @ w"
proof (induction n arbitrary: t)
  case 0
  then show ?case by simp
next
  case (Suc n)
  let ?v = "dev_read D t EFUSE_STATUS"
  show ?case
  proof (cases "?v AND EFUSE_BIT_BUSY \<noteq> 0")
    case True
    with Suc.prems have "busy_poll D n (t @ [Rd EFUSE_STATUS ?v]) = Some t'"
      by (simp add: Let_def)
    then obtain w where "is_poll w" "t' = (t @ [Rd EFUSE_STATUS ?v]) @ w"
      using Suc.IH by blast
    with True have "is_poll (Rd EFUSE_STATUS ?v # w) \<and> t' = t @ Rd EFUSE_STATUS ?v # w"
      by simp
    then show ?thesis by blast
  next
    case False
    with Suc.prems have "t' = t @ [Rd EFUSE_STATUS ?v]"
      by (simp add: Let_def)
    with False have "is_poll [Rd EFUSE_STATUS ?v] \<and> t' = t @ [Rd EFUSE_STATUS ?v]"
      by simp
    then show ?thesis by blast
  qed
qed

lemma wait_polls:
  assumes "responsive D"
  shows "\<exists>w. is_poll w \<and> cvi_efuse_wait_for_ready D t = Some (t @ w)"
proof -
  from assms obtain n t' where p: "busy_poll D n t = Some t'"
    unfolding responsive_def by (metis not_Some_eq)
  then obtain w where "is_poll w" "t' = t @ w"
    using busy_poll_shape by blast
  with busy_poll_wait [OF p] show ?thesis by blast
qed

lemma read_from_phy_bus:
  assumes "responsive D"
    and "ty = EFUSE_AREAD \<and> c = EFUSE_BIT_AREAD \<or> ty = EFUSE_MREAD \<and> c = EFUSE_BIT_MREAD"
  shows "\<exists>w1 w2 t3.
           is_poll w1 \<and> is_poll w2 \<and>
           t3 = t @ [Rd EFUSE_MODE (dev_read D t EFUSE_MODE),
                     Wr EFUSE_MODE (dev_read D t EFUSE_MODE OR EFUSE_BIT_CMD)] @ w1
                  @ [Wr EFUSE_ADR p, Wr EFUSE_MODE (c OR EFUSE_BIT_CMD)] @ w2 \<and>
           cvi_efuse_read_from_phy D p ty t =
             Some (dev_read D t3 EFUSE_RD_DATA, t3 @ [Rd EFUSE_RD_DATA (dev_read D t3 EFUSE_RD_DATA)])"
proof -
  let ?m = "dev_read D t EFUSE_MODE"
  let ?t0 = "t @ [Rd EFUSE_MODE ?m, Wr EFUSE_MODE (?m OR EFUSE_BIT_CMD)]"
  have on: "cvi_efuse_power_on D 1 t = ?t0"
    by (simp add: cvi_efuse_power_on_def mmio_defs Let_def)
  obtain w1 where w1: "is_poll w1" "cvi_efuse_wait_for_ready D ?t0 = Some (?t0 @ w1)"
    using wait_polls [OF assms(1)] by blast
  let ?t2 = "?t0 @ w1 @ [Wr EFUSE_ADR p, Wr EFUSE_MODE (c OR EFUSE_BIT_CMD)]"
  obtain w2 where w2: "is_poll w2" "cvi_efuse_wait_for_ready D ?t2 = Some (?t2 @ w2)"
    using wait_polls [OF assms(1)] by blast
  let ?t3 = "?t2 @ w2"
  have "cvi_efuse_read_from_phy D p ty t =
      Some (dev_read D ?t3 EFUSE_RD_DATA, ?t3 @ [Rd EFUSE_RD_DATA (dev_read D ?t3 EFUSE_RD_DATA)])"
    using assms(2) w1(2) w2(2)
    by (auto simp: cvi_efuse_read_from_phy_def on mmio_defs Let_def)
  with w1(1) w2(1) show ?thesis by (intro exI conjI) (assumption | simp)+
qed


lemma write_word_row_bus:
  assumes "responsive D"
  shows "\<exists>w1 w2 t3 row_val t5 w3 w4 t7 nv.
     is_poll w1 \<and> is_poll w2 \<and>
     t3 = t @ [Rd EFUSE_MODE (dev_read D t EFUSE_MODE),
               Wr EFUSE_MODE (dev_read D t EFUSE_MODE OR EFUSE_BIT_CMD)] @ w1
            @ [Wr EFUSE_ADR (push_bit 1 a OR j), Wr EFUSE_MODE (EFUSE_BIT_AREAD OR EFUSE_BIT_CMD)] @ w2 \<and>
     row_val = dev_read D t3 EFUSE_RD_DATA \<and>
     prog_bits D a j (filter (\<lambda>i. bit v i \<and> \<not> bit row_val i) [0..<32])
       (t3 @ [Rd EFUSE_RD_DATA row_val]) = Some t5 \<and>
     is_poll w3 \<and> is_poll w4 \<and>
     t7 = t5 @ [Rd EFUSE_MODE (dev_read D t5 EFUSE_MODE),
                Wr EFUSE_MODE (dev_read D t5 EFUSE_MODE OR EFUSE_BIT_CMD)] @ w3
             @ [Wr EFUSE_ADR (push_bit 1 a OR j), Wr EFUSE_MODE (EFUSE_BIT_MREAD OR EFUSE_BIT_CMD)] @ w4 \<and>
     nv = dev_read D t7 EFUSE_RD_DATA \<and>
     write_word_row D a v j t = Some (nv, t7 @ [Rd EFUSE_RD_DATA nv])"
proof -
  let ?p = "push_bit 1 a OR j"
  obtain w1 w2 t3 where
    a: "is_poll w1" "is_poll w2"
       "t3 = t @ [Rd EFUSE_MODE (dev_read D t EFUSE_MODE),
               Wr EFUSE_MODE (dev_read D t EFUSE_MODE OR EFUSE_BIT_CMD)] @ w1
            @ [Wr EFUSE_ADR ?p, Wr EFUSE_MODE (EFUSE_BIT_AREAD OR EFUSE_BIT_CMD)] @ w2"
       "cvi_efuse_read_from_phy D ?p EFUSE_AREAD t =
          Some (dev_read D t3 EFUSE_RD_DATA, t3 @ [Rd EFUSE_RD_DATA (dev_read D t3 EFUSE_RD_DATA)])"
    using read_from_phy_bus [OF assms, of EFUSE_AREAD EFUSE_BIT_AREAD t ?p] by auto
  define row_val where "row_val = dev_read D t3 EFUSE_RD_DATA"
  obtain t5 where
    p: "prog_bits D a j (filter (\<lambda>i. bit v i \<and> \<not> bit row_val i) [0..<32])
          (t3 @ [Rd EFUSE_RD_DATA row_val]) = Some t5"
    using prog_bits_returns [OF assms] by blast
  obtain w3 w4 t7 where
    m: "is_poll w3" "is_poll w4"
       "t7 = t5 @ [Rd EFUSE_MODE (dev_read D t5 EFUSE_MODE),
                Wr EFUSE_MODE (dev_read D t5 EFUSE_MODE OR EFUSE_BIT_CMD)] @ w3
             @ [Wr EFUSE_ADR ?p, Wr EFUSE_MODE (EFUSE_BIT_MREAD OR EFUSE_BIT_CMD)] @ w4"
       "cvi_efuse_read_from_phy D ?p EFUSE_MREAD t5 =
          Some (dev_read D t7 EFUSE_RD_DATA, t7 @ [Rd EFUSE_RD_DATA (dev_read D t7 EFUSE_RD_DATA)])"
    using read_from_phy_bus [OF assms, of EFUSE_MREAD EFUSE_BIT_MREAD t5 ?p] by auto
  have "write_word_row D a v j t =
      Some (dev_read D t7 EFUSE_RD_DATA, t7 @ [Rd EFUSE_RD_DATA (dev_read D t7 EFUSE_RD_DATA)])"
    using a(4) p m(4) by (simp add: write_word_row_prog_bits row_val_def)
  with a(1,2,3) p m(1,2,3) show ?thesis
    unfolding row_val_def by blast
qed

text \<open>
  Claim C3. The outer loop is the pass for row selector 0 followed by the pass for row
  selector 1. On a responsive device each pass first array-reads the physical row
  \<open>(vir_word_addr << 1) | j\<close>: after the power-on and the wait it writes that row to ADR
  and \<open>AREAD | CMD\<close> to MODE, waits, and takes \<open>row_val\<close> from RD-DATA. Then
  \<open>cvi_efuse_prog_bit\<close> is called, in increasing order, for exactly the bit positions below
  32 that are 1 in \<open>val\<close> and 0 in \<open>row_val\<close>, so a bit that the array read reports as 1 is
  never programmed; then the row is margin-read, and the pass returns.
\<close>

theorem write_word_array_reads_then_programs_zero_bits:
  assumes "responsive D"
  shows "write_word_loop D a v 0 c t =
           write_word_pass D a v 0 c t \<bind> (\<lambda>(c', t'). write_word_pass D a v 1 c' t') \<and>
    (\<exists>w1 w2 t3 row_val t5 nv t8.
       is_poll w1 \<and> is_poll w2 \<and>
       t3 = t @ [Rd EFUSE_MODE (dev_read D t EFUSE_MODE),
                 Wr EFUSE_MODE (dev_read D t EFUSE_MODE OR EFUSE_BIT_CMD)] @ w1
              @ [Wr EFUSE_ADR (push_bit 1 a OR j), Wr EFUSE_MODE (EFUSE_BIT_AREAD OR EFUSE_BIT_CMD)] @ w2 \<and>
       row_val = dev_read D t3 EFUSE_RD_DATA \<and>
       prog_bits D a j (filter (\<lambda>i. bit v i \<and> \<not> bit row_val i) [0..<32])
         (t3 @ [Rd EFUSE_RD_DATA row_val]) = Some t5 \<and>
       cvi_efuse_read_from_phy D (push_bit 1 a OR j) EFUSE_MREAD t5 = Some (nv, t8) \<and>
       write_word_row D a v j t = Some (nv, t8))"
proof
  show "write_word_loop D a v 0 c t =
           write_word_pass D a v 0 c t \<bind> (\<lambda>(c', t'). write_word_pass D a v 1 c' t')"
    by (rule write_word_loop_unfold)
next
  let ?p = "push_bit 1 a OR j"
  obtain w1 w2 t3 where
    a: "is_poll w1" "is_poll w2"
       "t3 = t @ [Rd EFUSE_MODE (dev_read D t EFUSE_MODE),
               Wr EFUSE_MODE (dev_read D t EFUSE_MODE OR EFUSE_BIT_CMD)] @ w1
            @ [Wr EFUSE_ADR ?p, Wr EFUSE_MODE (EFUSE_BIT_AREAD OR EFUSE_BIT_CMD)] @ w2"
       "cvi_efuse_read_from_phy D ?p EFUSE_AREAD t =
          Some (dev_read D t3 EFUSE_RD_DATA, t3 @ [Rd EFUSE_RD_DATA (dev_read D t3 EFUSE_RD_DATA)])"
    using read_from_phy_bus [OF assms, of EFUSE_AREAD EFUSE_BIT_AREAD t ?p] by auto
  define row_val where "row_val = dev_read D t3 EFUSE_RD_DATA"
  obtain t5 where
    p: "prog_bits D a j (filter (\<lambda>i. bit v i \<and> \<not> bit row_val i) [0..<32])
          (t3 @ [Rd EFUSE_RD_DATA row_val]) = Some t5"
    using prog_bits_returns [OF assms] by blast
  obtain nv t8 where m: "cvi_efuse_read_from_phy D ?p EFUSE_MREAD t5 = Some (nv, t8)"
    using read_from_phy_returns [OF assms] by blast
  have "write_word_row D a v j t = Some (nv, t8)"
    using a(4) p m by (simp add: write_word_row_prog_bits row_val_def)
  with a(1,2,3) p m show "\<exists>w1 w2 t3 row_val t5 nv t8.
       is_poll w1 \<and> is_poll w2 \<and>
       t3 = t @ [Rd EFUSE_MODE (dev_read D t EFUSE_MODE),
                 Wr EFUSE_MODE (dev_read D t EFUSE_MODE OR EFUSE_BIT_CMD)] @ w1
              @ [Wr EFUSE_ADR (push_bit 1 a OR j), Wr EFUSE_MODE (EFUSE_BIT_AREAD OR EFUSE_BIT_CMD)] @ w2 \<and>
       row_val = dev_read D t3 EFUSE_RD_DATA \<and>
       prog_bits D a j (filter (\<lambda>i. bit v i \<and> \<not> bit row_val i) [0..<32])
         (t3 @ [Rd EFUSE_RD_DATA row_val]) = Some t5 \<and>
       cvi_efuse_read_from_phy D (push_bit 1 a OR j) EFUSE_MREAD t5 = Some (nv, t8) \<and>
       write_word_row D a v j t = Some (nv, t8)"
    unfolding row_val_def by blast
qed

text \<open>
  On the example device, writing the value 1 to word 0: row 0 reads as 0, so bit 0 is
  programmed at physical address 0; row 1 reads as all ones, so nothing is programmed.
\<close>

theorem write_word_array_reads_then_programs_zero_bits_witness:
  "responsive demo_dev \<and>
   write_word_row demo_dev 0 1 0 [] = Some (0,
     [Rd EFUSE_MODE 0, Wr EFUSE_MODE 0x10, Rd EFUSE_STATUS 0,
      Wr EFUSE_ADR 0, Wr EFUSE_MODE 0x11, Rd EFUSE_STATUS 0, Rd EFUSE_RD_DATA 0,
      Rd EFUSE_STATUS 0, Wr EFUSE_ADR 0, Wr EFUSE_MODE 0x14,
      Rd EFUSE_MODE 0, Wr EFUSE_MODE 0x10, Rd EFUSE_STATUS 0,
      Wr EFUSE_ADR 0, Wr EFUSE_MODE 0x12, Rd EFUSE_STATUS 0, Rd EFUSE_RD_DATA 0]) \<and>
   write_word_row demo_dev 0 1 1 [] = Some (0xFFFFFFFF,
     [Rd EFUSE_MODE 0, Wr EFUSE_MODE 0x10, Rd EFUSE_STATUS 0,
      Wr EFUSE_ADR 1, Wr EFUSE_MODE 0x11, Rd EFUSE_STATUS 0, Rd EFUSE_RD_DATA 0xFFFFFFFF,
      Rd EFUSE_MODE 0, Wr EFUSE_MODE 0x10, Rd EFUSE_STATUS 0,
      Wr EFUSE_ADR 1, Wr EFUSE_MODE 0x12, Rd EFUSE_STATUS 0, Rd EFUSE_RD_DATA 0xFFFFFFFF])"
  using write_word_array_reads_then_programs_zero_bits [OF demo_responsive, of 0 1 0 "[]" 0]
    demo_responsive demo_row0 demo_row1_from_start
  by (simp add: reg_defs)

text \<open>
  Claim C4. On a responsive device, in each pass, after the array read and the programming
  loop, the same physical row \<open>(vir_word_addr << 1) | j\<close> is read again in margin-read
  mode: the same value is written to ADR, then \<open>MREAD | CMD\<close> to MODE, and \<open>new_value\<close> is
  what RD-DATA reads after the wait. The error counter is incremented exactly when
  \<open>(val & new_value) != val\<close>, which says that some bit of \<open>val\<close> is missing from
  \<open>new_value\<close>; the bits of \<open>new_value\<close> outside \<open>val\<close> play no part in it.
\<close>

theorem write_word_pass_margin_reads_same_row_and_counts:
  assumes "responsive D"
  shows "\<exists>w1 w2 t3 row_val t5 w3 w4 t7 nv.
     is_poll w1 \<and> is_poll w2 \<and>
     t3 = t @ [Rd EFUSE_MODE (dev_read D t EFUSE_MODE),
               Wr EFUSE_MODE (dev_read D t EFUSE_MODE OR EFUSE_BIT_CMD)] @ w1
            @ [Wr EFUSE_ADR (push_bit 1 a OR j), Wr EFUSE_MODE (EFUSE_BIT_AREAD OR EFUSE_BIT_CMD)] @ w2 \<and>
     row_val = dev_read D t3 EFUSE_RD_DATA \<and>
     prog_loop D a (v AND NOT row_val) j 0 (t3 @ [Rd EFUSE_RD_DATA row_val]) = Some t5 \<and>
     is_poll w3 \<and> is_poll w4 \<and>
     t7 = t5 @ [Rd EFUSE_MODE (dev_read D t5 EFUSE_MODE),
                Wr EFUSE_MODE (dev_read D t5 EFUSE_MODE OR EFUSE_BIT_CMD)] @ w3
             @ [Wr EFUSE_ADR (push_bit 1 a OR j), Wr EFUSE_MODE (EFUSE_BIT_MREAD OR EFUSE_BIT_CMD)] @ w4 \<and>
     nv = dev_read D t7 EFUSE_RD_DATA \<and>
     write_word_pass D a v j cnt t =
       Some (if v AND nv \<noteq> v then cnt + 1 else cnt, t7 @ [Rd EFUSE_RD_DATA nv]) \<and>
     (v AND nv \<noteq> v) = (\<exists>i. bit v i \<and> \<not> bit nv i) \<and>
     cnt + 1 \<noteq> cnt"
proof -
  from write_word_row_bus [OF assms, of t a j v]
  obtain w1 w2 t3 row_val t5 w3 w4 t7 nv where
    r: "is_poll w1" "is_poll w2"
     "t3 = t @ [Rd EFUSE_MODE (dev_read D t EFUSE_MODE),
               Wr EFUSE_MODE (dev_read D t EFUSE_MODE OR EFUSE_BIT_CMD)] @ w1
            @ [Wr EFUSE_ADR (push_bit 1 a OR j), Wr EFUSE_MODE (EFUSE_BIT_AREAD OR EFUSE_BIT_CMD)] @ w2"
     "row_val = dev_read D t3 EFUSE_RD_DATA"
     "prog_bits D a j (filter (\<lambda>i. bit v i \<and> \<not> bit row_val i) [0..<32])
       (t3 @ [Rd EFUSE_RD_DATA row_val]) = Some t5"
     "is_poll w3" "is_poll w4"
     "t7 = t5 @ [Rd EFUSE_MODE (dev_read D t5 EFUSE_MODE),
                Wr EFUSE_MODE (dev_read D t5 EFUSE_MODE OR EFUSE_BIT_CMD)] @ w3
             @ [Wr EFUSE_ADR (push_bit 1 a OR j), Wr EFUSE_MODE (EFUSE_BIT_MREAD OR EFUSE_BIT_CMD)] @ w4"
     "nv = dev_read D t7 EFUSE_RD_DATA"
     "write_word_row D a v j t = Some (nv, t7 @ [Rd EFUSE_RD_DATA nv])"
    by blast
  from r(5) have loop: "prog_loop D a (v AND NOT row_val) j 0 (t3 @ [Rd EFUSE_RD_DATA row_val]) = Some t5"
    by (simp add: prog_loop_eq zero_bit_positions)
  from r(10) have pass: "write_word_pass D a v j cnt t =
       Some (if v AND nv \<noteq> v then cnt + 1 else cnt, t7 @ [Rd EFUSE_RD_DATA nv])"
    by (simp add: write_word_pass_def)
  have "cnt + 1 \<noteq> cnt" by simp
  with r(1,2,3,4) loop r(6,7,8,9) pass verify_fails_iff [of v nv] show ?thesis
    by blast
qed

text \<open>
  On the example device, with the value 1 and word 0: the pass for row 0 margin-reads 0 and
  counts an error; the pass for row 1 margin-reads all ones, bits outside the value
  included, and counts none.
\<close>

theorem write_word_pass_margin_reads_same_row_and_counts_witness:
  "responsive demo_dev \<and>
   write_word_pass demo_dev 0 1 0 0 [] = Some (1,
     [Rd EFUSE_MODE 0, Wr EFUSE_MODE 0x10, Rd EFUSE_STATUS 0,
      Wr EFUSE_ADR 0, Wr EFUSE_MODE 0x11, Rd EFUSE_STATUS 0, Rd EFUSE_RD_DATA 0,
      Rd EFUSE_STATUS 0, Wr EFUSE_ADR 0, Wr EFUSE_MODE 0x14,
      Rd EFUSE_MODE 0, Wr EFUSE_MODE 0x10, Rd EFUSE_STATUS 0,
      Wr EFUSE_ADR 0, Wr EFUSE_MODE 0x12, Rd EFUSE_STATUS 0, Rd EFUSE_RD_DATA 0]) \<and>
   write_word_pass demo_dev 0 1 1 0 [] = Some (0,
     [Rd EFUSE_MODE 0, Wr EFUSE_MODE 0x10, Rd EFUSE_STATUS 0,
      Wr EFUSE_ADR 1, Wr EFUSE_MODE 0x11, Rd EFUSE_STATUS 0, Rd EFUSE_RD_DATA 0xFFFFFFFF,
      Rd EFUSE_MODE 0, Wr EFUSE_MODE 0x10, Rd EFUSE_STATUS 0,
      Wr EFUSE_ADR 1, Wr EFUSE_MODE 0x12, Rd EFUSE_STATUS 0, Rd EFUSE_RD_DATA 0xFFFFFFFF])"
  using write_word_pass_margin_reads_same_row_and_counts [OF demo_responsive, of "[]" 0 0 1 0]
    demo_responsive demo_row0 demo_row1_from_start
  by (simp add: reg_defs write_word_pass_def)

section \<open>Claims about the shadow read and the public write\<close>

text \<open>
  Claim C5, as the code has it. An address at or beyond 256, and an address that is not a
  multiple of 4, are both rejected with the same code \<open>-EFAULT\<close>, and the log is unchanged:
  there has been no clock enable and no register access.
\<close>

theorem read_from_shadow_rejects_without_access:
  "EFUSE_SIZE \<le> unat addr \<or> addr mod 4 \<noteq> 0 \<Longrightarrow>
     cvi_efuse_read_from_shadow D addr t = (- word_of_int EFAULT, t)"
proof (cases "EFUSE_SIZE \<le> unat addr")
  case True
  then show ?thesis by (simp add: cvi_efuse_read_from_shadow_def)
next
  case False
  moreover assume "EFUSE_SIZE \<le> unat addr \<or> addr mod 4 \<noteq> 0"
  ultimately have "addr mod 4 \<noteq> 0" by simp
  with False show ?thesis
    by (simp only: cvi_efuse_read_from_shadow_def if_False if_True not_False_eq_True)
qed

text \<open>The misaligned address \<open>0x101\<close>.\<close>

theorem read_from_shadow_rejects_without_access_witness:
  "(EFUSE_SIZE \<le> unat (0x101 :: u32) \<or> (0x101 :: u32) mod 4 \<noteq> 0) \<and>
   cvi_efuse_read_from_shadow demo_dev 0x101 [] = (- 14, [])"
  using read_from_shadow_rejects_without_access [of "0x101" demo_dev "[]"]
  by (simp add: EFUSE_SIZE_def EFAULT_def)

text \<open>
  The out-of-range (and aligned) address \<open>0x100\<close> and the misaligned (and in-range) address
  \<open>0x1\<close> get the same return value: the error kinds are not distinguished.
\<close>

theorem read_from_shadow_same_error_counterexample:
  "cvi_efuse_read_from_shadow demo_dev 0x100 [] = (- 14, []) \<and>
   cvi_efuse_read_from_shadow demo_dev 0x1 [] = (- 14, [])"
  by (simp add: cvi_efuse_read_from_shadow_def EFUSE_SIZE_def EFAULT_def)

text \<open>
  Claim C9. For every address and value \<open>cvi_efuse_write\<close> returns \<open>-1\<close> and leaves the log
  unchanged: no register is accessed, and \<open>cvi_efuse_write_word\<close> is not called.
\<close>

theorem write_always_fails_without_access:
  "cvi_efuse_write D addr val t = (- 1, t)"
  by (simp add: cvi_efuse_write_def)

section \<open>Return values: \<open>int\<close>, \<open>int64_t\<close> and \<open>u32\<close>\<close>

lemma scast_64_nonzero: "(scast c :: s64) \<noteq> 0 \<longleftrightarrow> c \<noteq> 0" for c :: s32
proof -
  have "sint (scast c :: s64) = sint c" by (simp add: sint_up_scast is_up)
  then show ?thesis by (metis scast_0 sint_0 signed_eq_0_iff)
qed

lemma scast_64_neg: "(scast c :: s64) <s 0 \<longleftrightarrow> c <s 0" for c :: s32
  by (simp add: word_sless_alt sint_up_scast is_up)

lemma scast_64_pos: "0 <s (scast c :: s64) \<longleftrightarrow> 0 <s c" for c :: s32
  by (simp add: word_sless_alt sint_up_scast is_up)

lemma sint_ucast_64: "sint (ucast v :: s64) = uint v" for v :: u32
proof -
  have "uint v < 2 ^ 32" using uint_bounded [of v] by simp
  then have "uint v < 2 ^ 63" by simp
  moreover have "- (2 ^ 63) \<le> uint v"
    by (rule order_trans [OF _ uint_nonnegative]) simp
  ultimately have "signed_take_bit 63 (uint v) = uint v"
    by (rule signed_take_bit_int_eq_self [rotated])
  then show ?thesis
    by (simp add: signed_ucast_eq)
qed

lemma ucast_64_not_neg: "\<not> (ucast v :: s64) <s 0" for v :: u32
  by (simp add: word_sless_alt sint_ucast_64)

lemma ucast_64_pos: "0 <s (ucast v :: s64) \<longleftrightarrow> v \<noteq> 0" for v :: u32
  by (simp add: word_sless_alt sint_ucast_64 word_neq_0_conv word_less_def)

lemma ucast_ucast_64: "(ucast (ucast v :: s64) :: u32) = v" for v :: u32
  by (simp add: ucast_up_ucast_id is_up)

lemma ucast_scast_64: "(ucast (scast c :: s64) :: s32) = c" for c :: s32
proof -
  have "is_down (ucast :: s64 \<Rightarrow> s32)" by (simp add: is_down)
  then have "(ucast :: s64 \<Rightarrow> s32) = scast" by (rule down_cast_same)
  moreover have "(scast (scast c :: s64) :: s32) = c"
    by (simp add: scast_up_scast_id is_up)
  ultimately show ?thesis by simp
qed

lemma efault_64: "(- word_of_int EFAULT :: s64) <s 0" "(ucast (- word_of_int EFAULT :: s64) :: s32) = - word_of_int EFAULT"
  by (simp_all add: EFAULT_def word_sless_alt)

lemma of_nat_not_neg: "n \<le> 256 \<Longrightarrow> \<not> (of_nat n :: s32) <s 0"
proof -
  assume "n \<le> 256"
  then have "int n < 2 ^ 31" "- (2 ^ 31) \<le> int n" by simp_all
  then have "signed_take_bit 31 (int n) = int n"
    by (intro signed_take_bit_int_eq_self)
  then have "sint (of_nat n :: s32) = int n"
    by (simp add: signed_of_nat)
  then show ?thesis by (simp add: word_sless_alt)
qed


section \<open>The buffer read, iteration by iteration\<close>

lemma read_from_shadow_cases:
  "cvi_efuse_read_from_shadow D a t =
     (if EFUSE_SIZE \<le> unat a \<or> a mod 4 \<noteq> 0 then (- word_of_int EFAULT, t)
      else if dev_clk D t \<noteq> 0 then (scast (dev_clk D t), t @ [ClkEnable (dev_clk D t)])
      else (ucast (dev_read D (t @ [ClkEnable 0]) (EFUSE_SHADOW_REG + a)),
            t @ [ClkEnable 0, Rd (EFUSE_SHADOW_REG + a) (dev_read D (t @ [ClkEnable 0]) (EFUSE_SHADOW_REG + a)),
                 ClkDisable]))"
proof -
  consider "EFUSE_SIZE \<le> unat a" | "\<not> EFUSE_SIZE \<le> unat a" "a mod 4 \<noteq> 0"
    | "\<not> EFUSE_SIZE \<le> unat a" "a mod 4 = 0" by argo
  then show ?thesis
  proof cases
    case 1
    then show ?thesis by (simp add: cvi_efuse_read_from_shadow_def)
  next
    case 2
    then show ?thesis by (simp only: cvi_efuse_read_from_shadow_def if_False if_True not_False_eq_True simp_thms)
  next
    case 3
    then show ?thesis
      by (simp only: cvi_efuse_read_from_shadow_def if_False if_True not_False_eq_True simp_thms
            mmio_defs Let_def prod.case scast_64_nonzero append.simps append_assoc)
         simp
  qed
qed

lemma valid_strides_0: "valid_strides addr i 0"
  by (simp add: valid_strides_def)

lemma valid_strides_Suc:
  "valid_strides addr i (Suc m) \<longleftrightarrow>
     unat (addr + of_nat i) < EFUSE_SIZE \<and> (addr + of_nat i) mod 4 = 0 \<and> valid_strides addr (i + 4) m"
proof -
  have "(\<forall>k<Suc m. P k) \<longleftrightarrow> P 0 \<and> (\<forall>k<m. P (Suc k))" for P
    by (metis less_Suc_eq_0_disj)
  then show ?thesis
    by (simp add: valid_strides_def add.assoc)
qed

lemma neg_of_nonpos: "\<not> 0 <s c \<Longrightarrow> c \<noteq> 0 \<Longrightarrow> c <s 0" for c :: s32
proof -
  assume "\<not> 0 <s c" "c \<noteq> 0"
  then have "sint c \<le> 0" "sint c \<noteq> 0"
    by (simp_all add: word_sless_alt signed_eq_0_iff)
  then show ?thesis by (simp add: word_sless_alt)
qed

lemma read_buf_loop_spec:
  shows "clk_contract D \<Longrightarrow> read_buf_loop D addr n i b t = (r, b', t') \<Longrightarrow>
     \<exists>vs. b' = store_words b i vs \<and> valid_strides addr i (length vs) \<and>
       (r = of_nat n \<and> t' = t @ stride_events addr i vs \<and> length vs = (n + 3 - i) div 4
        \<or> r = - word_of_int EFAULT \<and> t' = t @ stride_events addr i vs \<and> i + 4 * length vs < n \<and>
          (EFUSE_SIZE \<le> unat (addr + of_nat (i + 4 * length vs)) \<or>
           (addr + of_nat (i + 4 * length vs)) mod 4 \<noteq> 0)
        \<or> r <s 0 \<and> r = dev_clk D (t @ stride_events addr i vs) \<and> i + 4 * length vs < n \<and>
          t' = t @ stride_events addr i vs @ [ClkEnable r])"
proof (induction D addr n i b t rule: read_buf_loop.induct)
  case (1 D addr n i b t)
  note contract = "1.prems"(1) and run = "1.prems"(2)
  let ?a = "addr + of_nat i"
  show ?case
  proof (cases "i < n")
    case False
    with run have "r = of_nat n" "b' = b" "t' = t"
      by (simp_all add: read_buf_loop.simps)
    moreover from False have "(n + 3 - i) div 4 = 0" by simp
    ultimately show ?thesis
      by (intro exI [of _ "[]"]) (simp add: valid_strides_0)
  next
    case True
    consider (bad) "EFUSE_SIZE \<le> unat ?a \<or> ?a mod 4 \<noteq> 0"
      | (clk) "\<not> (EFUSE_SIZE \<le> unat ?a \<or> ?a mod 4 \<noteq> 0)" "dev_clk D t \<noteq> 0"
      | (ok) "\<not> (EFUSE_SIZE \<le> unat ?a \<or> ?a mod 4 \<noteq> 0)" "dev_clk D t = 0"
      by argo
    then show ?thesis
    proof cases
      case bad
      then have rd: "cvi_efuse_read_from_shadow D ?a t = (- word_of_int EFAULT, t)"
        by (simp add: read_from_shadow_cases)
      from run True have "r = - word_of_int EFAULT" "b' = b" "t' = t"
        by (simp_all add: read_buf_loop.simps [of D addr n i] rd efault_64)
      with bad True show ?thesis
        by (intro exI [of _ "[]"]) (simp add: valid_strides_0)
    next
      case clk
      let ?c = "dev_clk D t"
      from clk have rd: "cvi_efuse_read_from_shadow D ?a t = (scast ?c, t @ [ClkEnable ?c])"
        by (simp add: read_from_shadow_cases)
      from clk(2) contract have neg: "?c <s 0"
        by (auto simp: clk_contract_def intro: neg_of_nonpos)
      from run True have "r = ?c" "b' = b" "t' = t @ [ClkEnable ?c]"
        by (auto simp: read_buf_loop.simps [of D addr n i] rd scast_64_neg neg ucast_scast_64)
      with neg True show ?thesis
        by (intro exI [of _ "[]"]) (simp add: valid_strides_0)
    next
      case ok
      let ?v = "dev_read D (t @ [ClkEnable 0]) (EFUSE_SHADOW_REG + ?a)"
      let ?t1 = "t @ [ClkEnable 0, Rd (EFUSE_SHADOW_REG + ?a) ?v, ClkDisable]"
      let ?b1 = "if ?v \<noteq> 0 then memcpy_u32 b i ?v else b"
      from ok have rd: "cvi_efuse_read_from_shadow D ?a t = (ucast ?v, ?t1)"
        by (simp add: read_from_shadow_cases)
      have notneg: "\<not> (ucast ?v :: s64) <s 0" by (rule ucast_64_not_neg)
      have "read_buf_loop D addr n i b t =
          read_buf_loop D addr n (i + 4)
            (if 0 <s (ucast ?v :: s64) then memcpy_u32 b i (ucast (ucast ?v :: s64)) else b) ?t1"
        using True by (subst read_buf_loop.simps) (simp add: rd notneg)
      with run have step: "read_buf_loop D addr n (i + 4)
            (if 0 <s (ucast ?v :: s64) then memcpy_u32 b i (ucast (ucast ?v :: s64)) else b) ?t1 = (r, b', t')"
        by simp
      from "1.IH" [OF True rd [symmetric] notneg contract step]
      obtain vs where vs: "b' = store_words (if 0 <s (ucast ?v :: s64) then memcpy_u32 b i (ucast (ucast ?v :: s64)) else b) (i + 4) vs"
        "valid_strides addr (i + 4) (length vs)"
        "r = of_nat n \<and> t' = ?t1 @ stride_events addr (i + 4) vs \<and> length vs = (n + 3 - (i + 4)) div 4
        \<or> r = - word_of_int EFAULT \<and> t' = ?t1 @ stride_events addr (i + 4) vs \<and> (i + 4) + 4 * length vs < n \<and>
          (EFUSE_SIZE \<le> unat (addr + of_nat ((i + 4) + 4 * length vs)) \<or>
           (addr + of_nat ((i + 4) + 4 * length vs)) mod 4 \<noteq> 0)
        \<or> r <s 0 \<and> r = dev_clk D (?t1 @ stride_events addr (i + 4) vs) \<and> (i + 4) + 4 * length vs < n \<and>
          t' = ?t1 @ stride_events addr (i + 4) vs @ [ClkEnable r]"
        by blast
      have len: "(n + 3 - i) div 4 = Suc ((n + 3 - (i + 4)) div 4)"
        using True by presburger
      have arith: "i + 4 + 4 * length vs = i + 4 * length (?v # vs)" by simp
      show ?thesis
      proof (intro exI [of _ "?v # vs"] conjI)
        show "b' = store_words b i (?v # vs)"
          using vs(1) by (simp add: ucast_64_pos ucast_ucast_64)
        show "valid_strides addr i (length (?v # vs))"
          using vs(2) ok(1) by (simp add: valid_strides_Suc)
        show "r = of_nat n \<and> t' = t @ stride_events addr i (?v # vs) \<and> length (?v # vs) = (n + 3 - i) div 4
          \<or> r = - word_of_int EFAULT \<and> t' = t @ stride_events addr i (?v # vs) \<and> i + 4 * length (?v # vs) < n \<and>
            (EFUSE_SIZE \<le> unat (addr + of_nat (i + 4 * length (?v # vs))) \<or>
             (addr + of_nat (i + 4 * length (?v # vs))) mod 4 \<noteq> 0)
          \<or> r <s 0 \<and> r = dev_clk D (t @ stride_events addr i (?v # vs)) \<and> i + 4 * length (?v # vs) < n \<and>
            t' = t @ stride_events addr i (?v # vs) @ [ClkEnable r]"
          using vs(3) unfolding arith [symmetric] len
          by (simp add: )
      qed
    qed
  qed
qed


section \<open>The bytes of the buffer\<close>

lemma le_byte_0: "le_byte 0 k = 0"
  by (simp add: le_byte_def)

lemma store_words_below: "k < i \<Longrightarrow> store_words b i vs k = b k"
  by (induction vs arbitrary: b i) (simp_all add: memcpy_u32_def)

lemma store_words_at:
  "store_words b i vs (i + j) =
     (if j < 4 * length vs \<and> vs ! (j div 4) \<noteq> 0
      then le_byte (vs ! (j div 4)) (j mod 4) else b (i + j))"
proof (induction vs arbitrary: b i j)
  case Nil
  then show ?case by simp
next
  case (Cons v vs)
  let ?b1 = "if v \<noteq> 0 then memcpy_u32 b i v else b"
  show ?case
  proof (cases "j < 4")
    case True
    then have "store_words ?b1 (i + 4) vs (i + j) = ?b1 (i + j)"
      by (intro store_words_below) simp
    moreover from True have "j div 4 = 0" "j mod 4 = j" by simp_all
    ultimately show ?thesis
      using True by (simp add: memcpy_u32_def)
  next
    case False
    define j' where "j' = j - 4"
    with False have j: "j = j' + 4" by simp
    have "store_words ?b1 (i + 4) vs (i + 4 + j') =
        (if j' < 4 * length vs \<and> vs ! (j' div 4) \<noteq> 0
         then le_byte (vs ! (j' div 4)) (j' mod 4) else ?b1 (i + 4 + j'))"
      by (rule Cons.IH)
    moreover have "?b1 (i + 4 + j') = b (i + 4 + j')"
      by (simp add: memcpy_u32_def)
    moreover have "(j' + 4) div 4 = Suc (j' div 4)" "(j' + 4) mod 4 = j' mod 4"
      by simp_all
    ultimately show ?thesis
      unfolding j by (simp add: add.assoc add.commute [of 4 j'] del: if_split)
  qed
qed

lemma store_words_memset0:
  assumes "k < n"
  shows "store_words (memset0 b n) 0 vs k =
           (if k div 4 < length vs then le_byte (vs ! (k div 4)) (k mod 4) else 0)"
proof -
  have "k < 4 * length vs \<longleftrightarrow> k div 4 < length vs" by auto
  moreover have "memset0 b n k = 0" using assms by (simp add: memset0_def)
  ultimately show ?thesis
    using store_words_at [of "memset0 b n" 0 vs k] by (auto simp: le_byte_0)
qed

section \<open>Aligned addresses and the end of the array\<close>

lemma word_mod_4: "x mod 4 = 0 \<longleftrightarrow> unat x mod 4 = 0" for x :: u32
proof -
  have "unat (x mod 4) = unat x mod 4" by (simp add: unat_mod)
  then show ?thesis by (metis unat_eq_0)
qed

lemma unat_add_of_nat:
  "unat (addr + of_nat m :: u32) = (unat addr + m) mod 2 ^ 32"
  by (simp add: unat_word_ariths unat_of_nat mod_add_right_eq)

lemma aligned_stride:
  assumes "addr mod 4 = 0"
  shows "(addr + of_nat (4 * m) :: u32) mod 4 = 0"
proof -
  from assms have "unat addr mod 4 = 0" by (simp add: word_mod_4)
  then have "(unat addr + 4 * m) mod 4 = 0" by simp
  moreover have "((unat addr + 4 * m) mod 2 ^ 32) mod 4 = (unat addr + 4 * m) mod 4"
    by (rule mod_mod_cancel) simp
  ultimately show ?thesis
    by (simp only: word_mod_4 unat_add_of_nat)
qed

lemma read_buf_run:
  "\<exists>r b' t'. cvi_efuse_read_buf D addr (Some b) sz t = (r, Some b', t') \<and>
     read_buf_loop D addr (min sz 256) 0 (memset0 b (min sz 256)) t = (r, b', t')"
proof -
  have clamp: "(if sz > EFUSE_SIZE then EFUSE_SIZE else sz) = min sz 256"
    by (simp add: EFUSE_SIZE_def min_def)
  obtain r0 b0 t0 where "read_buf_loop D addr (min sz 256) 0 (memset0 b (min sz 256)) t = (r0, b0, t0)"
    by (metis prod_cases3)
  then show ?thesis
    by (simp add: cvi_efuse_read_buf_def clamp)
qed

lemma read_buf_in_range_succeeds:
  assumes on: "clk_always_on D" and al: "addr mod 4 = 0" and fit: "unat addr + min sz 256 \<le> 256"
  shows "fst (cvi_efuse_read_buf D addr (Some b) sz t) = of_nat (min sz 256)"
proof -
  define n where "n = min sz 256"
  from on have contract: "clk_contract D"
    by (simp add: clk_always_on_def clk_contract_def word_sless_alt)
  obtain r b' t' where
    res: "cvi_efuse_read_buf D addr (Some b) sz t = (r, Some b', t')" and
    loop: "read_buf_loop D addr n 0 (memset0 b n) t = (r, b', t')"
    using read_buf_run [of D addr b sz t] unfolding n_def by blast
  from read_buf_loop_spec [OF contract loop, unfolded add_0 diff_zero] obtain vs where
    out: "r = of_nat n \<and> t' = t @ stride_events addr 0 vs \<and> length vs = (n + 3) div 4
        \<or> r = - word_of_int EFAULT \<and> t' = t @ stride_events addr 0 vs \<and> 4 * length vs < n \<and>
          (EFUSE_SIZE \<le> unat (addr + of_nat (4 * length vs)) \<or>
           (addr + of_nat (4 * length vs)) mod 4 \<noteq> 0)
        \<or> r <s 0 \<and> r = dev_clk D (t @ stride_events addr 0 vs) \<and> 4 * length vs < n \<and>
          t' = t @ stride_events addr 0 vs @ [ClkEnable r]"
    by blast
  have no_clk: "\<not> (r <s 0 \<and> r = dev_clk D (t @ stride_events addr 0 vs))"
    using on by (auto simp: clk_always_on_def word_sless_alt)
  have no_fault: "\<not> (4 * length vs < n \<and>
          (EFUSE_SIZE \<le> unat (addr + of_nat (4 * length vs)) \<or>
           (addr + of_nat (4 * length vs)) mod 4 \<noteq> 0))"
  proof
    assume a: "4 * length vs < n \<and>
          (EFUSE_SIZE \<le> unat (addr + of_nat (4 * length vs)) \<or>
           (addr + of_nat (4 * length vs)) mod 4 \<noteq> 0)"
    then have "unat addr + 4 * length vs < 256" using fit unfolding n_def by linarith
    then have "(unat addr + 4 * length vs) mod 2 ^ 32 < 256"
      by simp
    then have "unat (addr + of_nat (4 * length vs)) < 256"
      by (simp only: unat_add_of_nat)
    with a aligned_stride [OF al, of "length vs"] show False
      by (simp add: EFUSE_SIZE_def)
  qed
  from out no_clk no_fault have "r = of_nat n" by argo
  with res show ?thesis by (simp add: n_def)
qed

lemma demo_clk_on: "clk_always_on demo_dev"
  by (simp add: clk_always_on_def demo_read)

lemma demo_clk_contract: "clk_contract demo_dev"
  by (simp add: clk_contract_def demo_read word_sless_alt)

section \<open>Claims about the buffer read\<close>

text \<open>
  What the buffer read does below the clamped size. With a clock enable that keeps its
  contract, for every non-null buffer \<open>b\<close> and every requested size \<open>sz\<close>: the size is
  clamped to \<open>min sz 256\<close>; the log is extended by successful shadow reads at \<open>addr\<close>,
  \<open>addr + 4\<close>, ... returning the words \<open>vs\<close> (and, on failure, by the failing clock
  enable); below the clamped size the buffer holds the bytes of \<open>vs\<close>, least significant
  first, and zero from there on, which is the zero fill done before the first read; and
  the call either returns a negative code or returns the clamped size after reading all
  \<open>(min sz 256 + 3) div 4\<close> words.
\<close>

lemma read_buf_clamps_zero_fills_and_copies:
  assumes "clk_contract D"
    and "cvi_efuse_read_buf D addr (Some b) sz t = (r, ob', t')"
  shows "\<exists>b' vs sfx.
           ob' = Some b' \<and>
           t' = t @ stride_events addr 0 vs @ sfx \<and>
           (\<forall>k < min sz 256.
              b' k = (if k div 4 < length vs then le_byte (vs ! (k div 4)) (k mod 4) else 0)) \<and>
           (r <s 0 \<or>
            r = of_nat (min sz 256) \<and> length vs = (min sz 256 + 3) div 4 \<and> sfx = [])"
proof -
  define n where "n = min sz 256"
  have clamp: "(if sz > EFUSE_SIZE then EFUSE_SIZE else sz) = n"
    by (simp add: n_def EFUSE_SIZE_def min_def)
  obtain r0 b0 t0 where loop: "read_buf_loop D addr n 0 (memset0 b n) t = (r0, b0, t0)"
    by (metis prod_cases3)
  with assms(2) have res: "r = r0" "ob' = Some b0" "t' = t0"
    by (simp_all add: cvi_efuse_read_buf_def clamp)
  from read_buf_loop_spec [OF assms(1) loop] obtain vs where
    b0: "b0 = store_words (memset0 b n) 0 vs" and
    out: "r0 = of_nat n \<and> t0 = t @ stride_events addr 0 vs \<and> length vs = (n + 3 - 0) div 4
        \<or> r0 = - word_of_int EFAULT \<and> t0 = t @ stride_events addr 0 vs \<and> 0 + 4 * length vs < n \<and>
          (EFUSE_SIZE \<le> unat (addr + of_nat (0 + 4 * length vs)) \<or>
           (addr + of_nat (0 + 4 * length vs)) mod 4 \<noteq> 0)
        \<or> r0 <s 0 \<and> r0 = dev_clk D (t @ stride_events addr 0 vs) \<and> 0 + 4 * length vs < n \<and>
          t0 = t @ stride_events addr 0 vs @ [ClkEnable r0]"
    by blast
  have bytes: "\<forall>k < n. b0 k = (if k div 4 < length vs then le_byte (vs ! (k div 4)) (k mod 4) else 0)"
    by (simp add: b0 store_words_memset0)
  have neg: "(- word_of_int EFAULT :: s32) <s 0"
    by (simp add: EFAULT_def word_sless_alt)
  from out consider
    (full) "r0 = of_nat n" "t0 = t @ stride_events addr 0 vs @ []" "length vs = (n + 3) div 4"
    | (fail) sfx where "r0 <s 0" "t0 = t @ stride_events addr 0 vs @ sfx"
    using neg by auto
  then show ?thesis
  proof cases
    case full
    with bytes res show ?thesis unfolding n_def by blast
  next
    case fail
    with bytes res show ?thesis unfolding n_def by blast
  qed
qed

text \<open>
  On the example device, a request for 1000 bytes at address 0 returns 256 after 64 reads.
\<close>

lemma read_buf_1000_returns_256:
  "clk_contract demo_dev \<and>
   (\<exists>b' vs. cvi_efuse_read_buf demo_dev 0 (Some (\<lambda>k. 0xFF)) 1000 [] =
              (256, Some b', stride_events 0 0 vs) \<and> length vs = 64)"
proof -
  obtain r ob' t' where run: "cvi_efuse_read_buf demo_dev 0 (Some (\<lambda>k. 0xFF)) 1000 [] = (r, ob', t')"
    by (metis prod_cases3)
  have "fst (cvi_efuse_read_buf demo_dev 0 (Some (\<lambda>k. 0xFF)) 1000 []) = of_nat (min 1000 256)"
    by (rule read_buf_in_range_succeeds [OF demo_clk_on]) simp_all
  with run have r: "r = 256" by simp
  then have "\<not> r <s 0" by (simp add: word_sless_alt)
  with read_buf_clamps_zero_fills_and_copies [OF demo_clk_contract run] r
  show ?thesis using demo_clk_contract run by auto
qed

text \<open>
  Claim C8. The size returned is not always the number of bytes filled. The last \<open>memcpy\<close>
  stores four bytes even when fewer remain below the clamped size. On the example device,
  with a buffer of \<open>0xFF\<close> bytes, a request for 5 bytes at address 0 reads the words
  \<open>0x100\<close> and \<open>0x104\<close>, returns 5, and has stored eight bytes: bytes 5, 6 and 7, beyond
  the requested size, are overwritten with the rest of the second word.
\<close>

theorem read_buf_stores_past_requested_size:
  "\<exists>b' t'. cvi_efuse_read_buf demo_dev 0 (Some (\<lambda>k. 0xFF)) 5 [] = (5, Some b', t') \<and>
     b' 0 = 0x00 \<and> b' 1 = 0x01 \<and> b' 2 = 0 \<and> b' 3 = 0 \<and>
     b' 4 = 0x04 \<and> b' 5 = 0x01 \<and> b' 6 = 0 \<and> b' 7 = 0 \<and> b' 8 = 0xFF \<and>
     t' = [ClkEnable 0, Rd 0x100 0x100, ClkDisable, ClkEnable 0, Rd 0x104 0x104, ClkDisable]"
  by (simp add: cvi_efuse_read_buf_def EFUSE_SIZE_def read_buf_loop.simps read_from_shadow_cases
      demo_read reg_defs ucast_64_not_neg ucast_64_pos ucast_ucast_64 memcpy_u32_def memset0_def le_byte_def
      word_sless_alt)

text \<open>
  Claim C10, as the code has it. The clamp ignores the starting address. For a 4-byte
  aligned \<open>addr\<close> and a size that is not zero, with \<open>addr\<close> plus the clamped size beyond 256,
  and a clock enable that keeps its contract, the call returns a negative code and never a
  byte count: after the reads that succeeded, the next iteration either calls
  \<open>cvi_efuse_read_from_shadow\<close> with an address at or beyond 256 and gets \<open>-EFAULT\<close>, or its
  clock enable fails and that code is returned.
\<close>

theorem read_buf_past_end_fails:
  assumes contract: "clk_contract D" and al: "addr mod 4 = 0" and pos: "0 < sz"
    and past: "256 < unat addr + min sz 256"
  shows "\<exists>r b' vs sfx.
           cvi_efuse_read_buf D addr (Some b) sz t = (r, Some b', t @ stride_events addr 0 vs @ sfx) \<and>
           r <s 0 \<and> 4 * length vs < min sz 256 \<and>
           (sfx = [] \<and> r = - word_of_int EFAULT \<and> EFUSE_SIZE \<le> unat (addr + of_nat (4 * length vs))
            \<or> sfx = [ClkEnable r] \<and> r = dev_clk D (t @ stride_events addr 0 vs))"
proof -
  define n where "n = min sz 256"
  have n: "0 < n" "n \<le> 256" "256 < unat addr + n"
    using pos past by (simp_all add: n_def)
  obtain r b' t' where
    res: "cvi_efuse_read_buf D addr (Some b) sz t = (r, Some b', t')" and
    loop: "read_buf_loop D addr n 0 (memset0 b n) t = (r, b', t')"
    using read_buf_run [of D addr b sz t] unfolding n_def by blast
  from read_buf_loop_spec [OF contract loop, unfolded add_0 diff_zero] obtain vs where
    valid: "valid_strides addr 0 (length vs)" and
    out: "r = of_nat n \<and> t' = t @ stride_events addr 0 vs \<and> length vs = (n + 3) div 4
        \<or> r = - word_of_int EFAULT \<and> t' = t @ stride_events addr 0 vs \<and> 4 * length vs < n \<and>
          (EFUSE_SIZE \<le> unat (addr + of_nat (4 * length vs)) \<or>
           (addr + of_nat (4 * length vs)) mod 4 \<noteq> 0)
        \<or> r <s 0 \<and> r = dev_clk D (t @ stride_events addr 0 vs) \<and> 4 * length vs < n \<and>
          t' = t @ stride_events addr 0 vs @ [ClkEnable r]"
    by blast
  have not_all: "length vs \<noteq> (n + 3) div 4"
  proof
    assume len: "length vs = (n + 3) div 4"
    show False
    proof (cases "unat addr < 256")
      case False
      from n(1) len have "0 < length vs" by simp
      with valid have "unat (addr + of_nat (0 + 4 * 0)) < EFUSE_SIZE"
        unfolding valid_strides_def by metis
      with False show False by (simp add: EFUSE_SIZE_def)
    next
      case True
      define k where "k = (256 - unat addr) div 4"
      from al have "unat addr mod 4 = 0" by (simp add: word_mod_4)
      with True have k4: "unat addr + 4 * k = 256" unfolding k_def by presburger
      with n(3) have "4 * k < n" by simp
      with len have "k < length vs" by simp
      with valid have "unat (addr + of_nat (0 + 4 * k)) < EFUSE_SIZE"
        unfolding valid_strides_def by metis
      moreover have "(unat addr + 4 * k) mod 2 ^ 32 = 256"
        by (simp add: k4)
      then have "unat (addr + of_nat (4 * k)) = 256"
        by (simp only: unat_add_of_nat)
      ultimately show False by (simp add: EFUSE_SIZE_def)
    qed
  qed
  have neg: "(- word_of_int EFAULT :: s32) <s 0"
    by (simp add: EFAULT_def word_sless_alt)
  from out not_all consider
    (fault) "r = - word_of_int EFAULT" "t' = t @ stride_events addr 0 vs @ []" "4 * length vs < n"
      "EFUSE_SIZE \<le> unat (addr + of_nat (4 * length vs))"
    | (clk) "r <s 0" "r = dev_clk D (t @ stride_events addr 0 vs)" "4 * length vs < n"
      "t' = t @ stride_events addr 0 vs @ [ClkEnable r]"
    using aligned_stride [OF al, of "length vs"] unfolding append_Nil2 by argo
  then show ?thesis
  proof cases
    case fault
    with res neg show ?thesis unfolding n_def by blast
  next
    case clk
    with res show ?thesis unfolding n_def by blast
  qed
qed

text \<open>On the example device, 256 bytes from address 4: the read at address 256 fails.\<close>

theorem read_buf_past_end_fails_witness:
  "clk_contract demo_dev \<and> (4 :: u32) mod 4 = 0 \<and> (0 :: nat) < 256 \<and>
   256 < unat (4 :: u32) + min 256 256 \<and>
   fst (cvi_efuse_read_buf demo_dev 4 (Some (\<lambda>k. 0)) 256 []) = - 14"
proof -
  have al: "(4 :: u32) mod 4 = 0" by simp
  have past: "256 < unat (4 :: u32) + min 256 256" by simp
  from read_buf_past_end_fails [OF demo_clk_contract al _ past, of "\<lambda>k. 0" "[]"]
  obtain r b' vs sfx where
    run: "cvi_efuse_read_buf demo_dev 4 (Some (\<lambda>k. 0)) 256 [] = (r, Some b', [] @ stride_events 4 0 vs @ sfx)"
    and neg: "r <s 0"
    and why: "sfx = [] \<and> r = - word_of_int EFAULT \<and> EFUSE_SIZE \<le> unat (4 + of_nat (4 * length vs) :: u32)
            \<or> sfx = [ClkEnable r] \<and> r = dev_clk demo_dev ([] @ stride_events 4 0 vs)"
    by auto
  from neg why have "r = - 14"
    by (auto simp: demo_read EFAULT_def word_sless_alt)
  with run show ?thesis using demo_clk_contract by simp
qed

text \<open>
  The claim as stated fails for a size of zero: address \<open>0x104\<close> is nonzero, aligned and
  beyond the array, yet the loop body never runs and the call returns 0.
\<close>

theorem read_buf_past_end_counterexample:
  "(0x104 :: u32) \<noteq> 0 \<and> (0x104 :: u32) mod 4 = 0 \<and> 256 < unat (0x104 :: u32) + min 0 256 \<and>
   fst (cvi_efuse_read_buf demo_dev 0x104 (Some (\<lambda>k. 0)) 0 []) = 0 \<and>
   snd (snd (cvi_efuse_read_buf demo_dev 0x104 (Some (\<lambda>k. 0)) 0 [])) = []"
  by (simp add: cvi_efuse_read_buf_def EFUSE_SIZE_def read_buf_loop.simps)

end
